theory Spec2Isabelle
  imports Main "HOL-Library.Sublist"
begin

section \<open>Python strings\<close>

text \<open>
  A Python \<open>str\<close> is a sequence of Unicode code points. A code point is a natural number,
  so every Python string is a value of \<open>pystr\<close>. ASCII literals of the source are written
  with \<open>lit\<close>, which maps each character of an Isabelle string to its code.
\<close>

type_synonym codepoint = nat
type_synonym pystr = "codepoint list"

definition lit :: "string \<Rightarrow> pystr" where
  "lit s = map of_char s"

text \<open>
  \<open>isspace\<close> is CPython's \<open>Py_UNICODE_ISSPACE\<close>: the predicate behind both
  \<open>str.strip()\<close> without arguments and the class \<open>\s\<close> of a \<open>str\<close> pattern.
\<close>

definition isspace :: "codepoint \<Rightarrow> bool" where
  "isspace c \<longleftrightarrow>
     (9 \<le> c \<and> c \<le> 13) \<or> (28 \<le> c \<and> c \<le> 32) \<or> c = 133 \<or> c = 160 \<or> c = 5760 \<or>
     (8192 \<le> c \<and> c \<le> 8202) \<or> c = 8232 \<or> c = 8233 \<or> c = 8239 \<or> c = 8287 \<or> c = 12288"

definition lstrip :: "pystr \<Rightarrow> pystr" where
  "lstrip s = dropWhile isspace s"

definition rstrip :: "pystr \<Rightarrow> pystr" where
  "rstrip s = rev (dropWhile isspace (rev s))"

definition strip :: "pystr \<Rightarrow> pystr" where
  "strip s = rstrip (lstrip s)"

section \<open>Occurrences of a marker\<close>

text \<open>
  The text before and the text after the first occurrence of \<open>m\<close> in a string, as
  \<open>str.partition\<close> gives them, and \<open>None\<close> when \<open>m\<close> does not occur. This is the
  vocabulary in which the behaviour of the patterns is stated; the source does not call it.
\<close>

fun split_first :: "pystr \<Rightarrow> pystr \<Rightarrow> (pystr \<times> pystr) option" where
  "split_first m [] = (if m = [] then Some ([], []) else None)"
| "split_first m (x # t) =
     (if prefix m (x # t) then Some ([], drop (length m) (x # t))
      else map_option (\<lambda>(p, r). (x # p, r)) (split_first m t))"

text \<open>
  \<open>section_body start stop t\<close> is the text between the first occurrence of \<open>start\<close> in
  \<open>t\<close> and the first occurrence of \<open>stop\<close> after it.
\<close>

definition section_body :: "pystr \<Rightarrow> pystr \<Rightarrow> pystr \<Rightarrow> pystr option" where
  "section_body start stop t =
     (case split_first start t of
        None \<Rightarrow> None
      | Some (pre, r) \<Rightarrow> map_option fst (split_first stop r))"

text \<open>A string is border free when no proper nonempty prefix of it is also a suffix.\<close>

definition border_free :: "pystr \<Rightarrow> bool" where
  "border_free m = list_all (\<lambda>k. take k m \<noteq> drop (length m - k) m) [1..<length m]"

text \<open>No occurrence of the marker starts inside the text before its first occurrence.\<close>

definition first_at :: "pystr \<Rightarrow> pystr \<Rightarrow> pystr \<Rightarrow> bool" where
  "first_at m p r \<longleftrightarrow> (\<forall>d. suffix d p \<and> d \<noteq> [] \<longrightarrow> \<not> prefix m (d @ m @ r))"

text \<open>What the proofs below need of a marker string.\<close>

definition marker :: "pystr \<Rightarrow> bool" where
  "marker m \<longleftrightarrow> m \<noteq> [] \<and> \<not> isspace (hd m) \<and> \<not> isspace (last m) \<and> border_free m"

section \<open>The fragment of \<open>re\<close> used by the source\<close>

text \<open>
  The two patterns of the source are sequences of literals and starred character classes,
  one of which is a capture group. \<open>AnyChar\<close> is \<open>.\<close> under \<open>re.DOTALL\<close>, which matches
  every character including a newline; \<open>Space\<close> is \<open>\s\<close>.
\<close>

datatype cclass = Space | AnyChar

datatype quant = Greedy | Lazy

datatype atom = Lit pystr | Star cclass quant | GroupStar cclass quant

fun in_class :: "cclass \<Rightarrow> codepoint \<Rightarrow> bool" where
  "in_class Space c = isspace c"
| "in_class AnyChar c = True"

text \<open>
  Backtracking repetition. \<open>greedy P k s\<close> consumes as many characters satisfying \<open>P\<close> as
  it can and gives back one at a time until the continuation \<open>k\<close> accepts the rest.
  \<open>lazy P k acc s\<close> asks the continuation first and consumes one more character only when
  it refuses; \<open>acc\<close> is the text consumed so far.
\<close>

fun greedy :: "(codepoint \<Rightarrow> bool) \<Rightarrow> (pystr \<Rightarrow> pystr \<Rightarrow> 'r option) \<Rightarrow> pystr \<Rightarrow> pystr \<Rightarrow> 'r option" where
  "greedy P k acc [] = k acc []"
| "greedy P k acc (x # s) =
     (if P x then
        (case greedy P k (acc @ [x]) s of Some r \<Rightarrow> Some r | None \<Rightarrow> k acc (x # s))
      else k acc (x # s))"

fun lazy :: "(codepoint \<Rightarrow> bool) \<Rightarrow> (pystr \<Rightarrow> pystr \<Rightarrow> 'r option) \<Rightarrow> pystr \<Rightarrow> pystr \<Rightarrow> 'r option" where
  "lazy P k acc [] = k acc []"
| "lazy P k acc (x # s) =
     (case k acc (x # s) of Some r \<Rightarrow> Some r
      | None \<Rightarrow> if P x then lazy P k (acc @ [x]) s else None)"

fun repeat :: "quant \<Rightarrow> (codepoint \<Rightarrow> bool) \<Rightarrow> (pystr \<Rightarrow> pystr \<Rightarrow> 'r option) \<Rightarrow> pystr \<Rightarrow> 'r option" where
  "repeat Greedy P k s = greedy P k [] s"
| "repeat Lazy P k s = lazy P k [] s"

text \<open>
  \<open>match_here p s\<close> matches the pattern \<open>p\<close> at the start of \<open>s\<close> and returns the texts of
  the capture groups, in order, of the first match in backtracking order.
\<close>

primrec match_here :: "atom list \<Rightarrow> pystr \<Rightarrow> pystr list option" where
  "match_here [] s = Some []"
| "match_here (a # p) s =
     (case a of
        Lit l \<Rightarrow> if prefix l s then match_here p (drop (length l) s) else None
      | Star c q \<Rightarrow> repeat q (in_class c) (\<lambda>_ rest. match_here p rest) s
      | GroupStar c q \<Rightarrow>
          repeat q (in_class c) (\<lambda>g rest. map_option ((#) g) (match_here p rest)) s)"

text \<open>The continuation of the group in \<open>START\s*(.*?)\s*END\<close>.\<close>

definition after_group :: "pystr \<Rightarrow> pystr \<Rightarrow> pystr \<Rightarrow> pystr list option" where
  "after_group stop g rest = map_option ((#) g) (match_here [Star Space Greedy, Lit stop] rest)"

text \<open>\<open>re.search\<close>: the match at the leftmost position that has one.\<close>

fun re_search :: "atom list \<Rightarrow> pystr \<Rightarrow> pystr list option" where
  "re_search p [] = match_here p []"
| "re_search p (c # s) =
     (case match_here p (c # s) of Some m \<Rightarrow> Some m | None \<Rightarrow> re_search p s)"

text \<open>
  The exceptions of the model: the \<open>RuntimeError\<close> the source raises itself,
  \<open>IndexError\<close> of \<open>Match.group\<close>, and \<open>LibraryError\<close> for whatever the client
  library raises.
\<close>

datatype exn = RuntimeError pystr | IndexError | LibraryError string

text \<open>
  \<open>m.group(n)\<close> for \<open>n \<ge> 1\<close> on a match object: the text of the \<open>n\<close>-th group, and
  \<open>IndexError\<close> when the pattern has no such group.
\<close>

definition group :: "pystr list \<Rightarrow> nat \<Rightarrow> exn + pystr" where
  "group m n = (if 1 \<le> n \<and> n \<le> length m then Inr (m ! (n - 1)) else Inl IndexError)"

section \<open>The markers and the extraction\<close>

definition RAW_TRANSCRIPT_START :: pystr where
  "RAW_TRANSCRIPT_START = lit ''<<<RAW_TRANSCRIPT_START>>>''"

definition RAW_TRANSCRIPT_END :: pystr where
  "RAW_TRANSCRIPT_END = lit ''<<<RAW_TRANSCRIPT_END>>>''"

definition ACCESSIBLE_NOTES_START :: pystr where
  "ACCESSIBLE_NOTES_START = lit ''<<<ACCESSIBLE_NOTES_START>>>''"

definition ACCESSIBLE_NOTES_END :: pystr where
  "ACCESSIBLE_NOTES_END = lit ''<<<ACCESSIBLE_NOTES_END>>>''"

text \<open>The shape \<open>START\s*(.*?)\s*END\<close> shared by the two patterns of the source.\<close>

definition section_re :: "pystr \<Rightarrow> pystr \<Rightarrow> atom list" where
  "section_re start stop =
     [Lit start, Star Space Greedy, GroupStar AnyChar Lazy, Star Space Greedy, Lit stop]"

definition raw_re :: "atom list" where
  "raw_re = section_re RAW_TRANSCRIPT_START RAW_TRANSCRIPT_END"

definition notes_re :: "atom list" where
  "notes_re = section_re ACCESSIBLE_NOTES_START ACCESSIBLE_NOTES_END"

definition fallback_notice :: pystr where
  "fallback_notice =
     lit ''Accessible notes could not be parsed from the model response.'' @ [10, 10]"

record extraction =
  raw_transcript :: pystr
  accessible_transcript :: pystr

text \<open>The text that the two searches of the source run on.\<close>

definition full_text_of :: "pystr option \<Rightarrow> pystr" where
  "full_text_of response_text = strip (case response_text of None \<Rightarrow> [] | Some t \<Rightarrow> t)"

text \<open>
  Lines 126 to 156 of \<open>analyze_audio_file\<close>: the argument is \<open>response.text\<close>, which is
  \<open>None\<close> or a string.
\<close>

definition extract_text :: "pystr option \<Rightarrow> exn + extraction" where
  "extract_text response_text =
     (let full_text = strip (case response_text of None \<Rightarrow> [] | Some t \<Rightarrow> t);
          raw_match = re_search raw_re full_text;
          notes_match = re_search notes_re full_text
      in case (case raw_match of
                 Some m \<Rightarrow> (case group m 1 of Inl e \<Rightarrow> Inl e | Inr g \<Rightarrow> Inr (strip g))
               | None \<Rightarrow> Inr full_text) of
           Inl e \<Rightarrow> Inl e
         | Inr raw \<Rightarrow>
             (case (case notes_match of
                      Some m \<Rightarrow> (case group m 1 of Inl e \<Rightarrow> Inl e | Inr g \<Rightarrow> Inr (strip g))
                    | None \<Rightarrow> Inr (fallback_notice @ full_text)) of
                Inl e \<Rightarrow> Inl e
              | Inr notes \<Rightarrow>
                  Inr \<lparr>raw_transcript = raw, accessible_transcript = notes\<rparr>))"

section \<open>The whole function and its collaborator\<close>

text \<open>
  The \<open>google.genai\<close> client is an external collaborator. Its three calls are the fields
  of \<open>genai\<close>; each returns a value or raises. \<open>models_generate_content\<close> stands for the
  call with \<open>model="gemini-2.0-flash"\<close> and \<open>contents=[prompt, uploaded_file]\<close>, where
  \<open>prompt\<close> is the fixed text of the source; its result is \<open>response.text\<close>.
\<close>

record ('c, 'f) genai =
  new_client :: "pystr \<Rightarrow> exn + 'c"
  files_upload :: "'c \<Rightarrow> pystr \<Rightarrow> exn + 'f"
  models_generate_content :: "'c \<Rightarrow> 'f \<Rightarrow> exn + pystr option"

text \<open>What the function does to the outside world, in order: each call it starts.\<close>

datatype event = ClientCreated pystr | Printed pystr | FileUploaded pystr | ContentGenerated

definition no_key_message :: pystr where
  "no_key_message = lit ''No Gemini API key provided to analyze_audio_file().''"

text \<open>
  \<open>analyze_audio_file\<close>: \<open>api_key\<close> is \<open>None\<close> or a string, and \<open>not api_key\<close> holds for
  \<open>None\<close> and for the empty string. The result is the trace of events together with the
  returned record or the exception raised.
\<close>

definition analyze_audio_file ::
  "('c, 'f) genai \<Rightarrow> pystr \<Rightarrow> pystr option \<Rightarrow> event list \<times> (exn + extraction)" where
  "analyze_audio_file g audio_path api_key =
     (case api_key of
        None \<Rightarrow> ([], Inl (RuntimeError no_key_message))
      | Some key \<Rightarrow>
          if key = [] then ([], Inl (RuntimeError no_key_message))
          else
            (case new_client g key of
               Inl e \<Rightarrow> ([ClientCreated key], Inl e)
             | Inr client \<Rightarrow>
                 (let uploading =
                        [ClientCreated key,
                         Printed (lit ''Uploading audio to Gemini: '' @ audio_path),
                         FileUploaded audio_path]
                  in case files_upload g client audio_path of
                       Inl e \<Rightarrow> (uploading, Inl e)
                     | Inr uploaded_file \<Rightarrow>
                         (case models_generate_content g client uploaded_file of
                            Inl e \<Rightarrow> (uploading @ [ContentGenerated], Inl e)
                          | Inr text \<Rightarrow>
                              (uploading @ [ContentGenerated], extract_text text)))))"

section \<open>Trimming\<close>

lemma rstrip_Nil: "rstrip [] = []" by (simp add: rstrip_def)

lemma rstrip_Cons:
  "rstrip (x # a) = (if \<forall>c\<in>set (x # a). isspace c then [] else x # rstrip a)"
  by (auto simp: rstrip_def dropWhile_append)

lemma rstrip_all_space: "\<forall>c\<in>set a. isspace c \<Longrightarrow> rstrip a = []"
  by (simp add: rstrip_def)

lemma rstrip_append_keep:
  "u \<noteq> [] \<Longrightarrow> \<not> isspace (last u) \<Longrightarrow> rstrip (v @ u) = v @ u"
  by (cases u rule: rev_cases) (auto simp: rstrip_def)

lemma rstrip_keep: "u \<noteq> [] \<Longrightarrow> \<not> isspace (last u) \<Longrightarrow> rstrip u = u"
  using rstrip_append_keep [of u "[]"] by simp

lemma rstrip_last: "rstrip s \<noteq> [] \<Longrightarrow> \<not> isspace (last (rstrip s))"
proof -
  assume "rstrip s \<noteq> []"
  then have "dropWhile isspace (rev s) \<noteq> []" by (simp add: rstrip_def)
  then have "\<not> isspace (hd (dropWhile isspace (rev s)))" by (rule hd_dropWhile)
  then show ?thesis by (simp add: rstrip_def last_rev \<open>dropWhile isspace (rev s) \<noteq> []\<close>)
qed

lemma rstrip_idem: "rstrip (rstrip s) = rstrip s"
  by (cases "rstrip s = []") (simp_all add: rstrip_Nil rstrip_keep rstrip_last)

lemma lstrip_idem: "lstrip (lstrip s) = lstrip s"
  by (simp add: lstrip_def dropWhile_idem)

lemma prefix_rstrip: "prefix (rstrip s) s"
  by (induction s) (auto simp: rstrip_Cons rstrip_Nil)

lemma lstrip_rstrip_hd:
  "lstrip (rstrip (lstrip s)) = rstrip (lstrip s)"
proof (cases "rstrip (lstrip s)")
  case Nil
  then show ?thesis by (simp add: lstrip_def)
next
  case (Cons y ys)
  then have "lstrip s \<noteq> []" by (auto simp: rstrip_Nil)
  then have "\<not> isspace (hd (lstrip s))" unfolding lstrip_def by (rule hd_dropWhile)
  moreover have "hd (lstrip s) = y"
    using prefix_rstrip [of "lstrip s"] Cons \<open>lstrip s \<noteq> []\<close>
    by (cases "lstrip s") (auto simp: prefix_Cons)
  ultimately show ?thesis using Cons by (simp add: lstrip_def)
qed

lemma strip_idem: "strip (strip s) = strip s"
  by (simp add: strip_def lstrip_rstrip_hd rstrip_idem)

lemma sublist_strip: "sublist (strip s) s"
proof -
  have "sublist (rstrip (lstrip s)) (lstrip s)" using prefix_rstrip by blast
  moreover have "sublist (lstrip s) s" by (simp add: lstrip_def)
  ultimately show ?thesis unfolding strip_def by (rule sublist_order.order_trans)
qed

lemma strip_all_space: "\<forall>c\<in>set a. isspace c \<Longrightarrow> strip a = []"
proof -
  assume "\<forall>c\<in>set a. isspace c"
  then have "lstrip a = []" by (simp add: lstrip_def)
  then show ?thesis by (simp add: strip_def rstrip_def)
qed

lemma lstrip_append_keep:
  "v \<noteq> [] \<Longrightarrow> \<not> isspace (hd v) \<Longrightarrow> lstrip (u @ v) = lstrip u @ v"
  by (cases v) (auto simp: lstrip_def dropWhile_append)

section \<open>Properties of first occurrences\<close>

lemma lstrip_suffix: "suffix (lstrip s) s"
  by (simp add: lstrip_def suffix_dropWhile)

lemma split_first_None: "split_first m t = None \<longleftrightarrow> \<not> sublist m t"
  by (induction t) (auto simp: sublist_Cons_right)

lemma split_first_SomeD: "split_first m t = Some (p, r) \<Longrightarrow> t = p @ m @ r"
proof (induction t arbitrary: p)
  case Nil
  then show ?case by (simp split: if_splits)
next
  case (Cons x t)
  show ?case
  proof (cases "prefix m (x # t)")
    case True
    with Cons.prems have "p = []" "r = drop (length m) (x # t)" by simp_all
    moreover from True have "x # t = m @ drop (length m) (x # t)"
      by (metis append_eq_conv_conj prefixE)
    ultimately show ?thesis by simp
  next
    case False
    with Cons.prems obtain p' where "split_first m t = Some (p', r)" "p = x # p'"
      by auto
    with Cons.IH show ?thesis by simp
  qed
qed

lemma first_at_Nil: "first_at m [] r"
  by (simp add: first_at_def)

lemma first_at_suffix: "first_at m p r \<Longrightarrow> suffix q p \<Longrightarrow> first_at m q r"
  unfolding first_at_def using suffix_order.order_trans by blast

lemma split_first_first_at: "split_first m t = Some (p, r) \<Longrightarrow> first_at m p r"
proof (induction t arbitrary: p)
  case Nil
  then show ?case by (simp add: first_at_Nil split: if_splits)
next
  case (Cons x t)
  show ?case
  proof (cases "prefix m (x # t)")
    case True
    with Cons.prems show ?thesis by (simp add: first_at_Nil)
  next
    case False
    with Cons.prems obtain p' where p': "split_first m t = Some (p', r)" "p = x # p'"
      by auto
    then have t: "t = p' @ m @ r" by (simp add: split_first_SomeD)
    have "first_at m p' r" using Cons.IH p'(1) .
    then show ?thesis
      using False t p'(2) unfolding first_at_def by (auto simp: suffix_Cons)
  qed
qed

lemma first_at_split_first: "first_at m p r \<Longrightarrow> split_first m (p @ m @ r) = Some (p, r)"
proof (induction p)
  case Nil
  have "split_first m (m @ r) = Some ([], r)"
  proof (cases "m @ r")
    case Nil
    then show ?thesis by simp
  next
    case (Cons y ys)
    have "prefix m (m @ r)" by simp
    then have "split_first m (y # ys) = Some ([], drop (length m) (y # ys))"
      unfolding Cons by simp
    then show ?thesis using Cons by (metis append_eq_conv_conj)
  qed
  then show ?case by simp
next
  case (Cons x p)
  have "\<not> prefix m ((x # p) @ m @ r)"
    using Cons.prems unfolding first_at_def by blast
  moreover have "first_at m p r"
    using Cons.prems by (rule first_at_suffix) (simp add: suffix_ConsI)
  ultimately show ?case using Cons.IH by simp
qed

section \<open>The section pattern as a search for first occurrences\<close>

text \<open>
  The lemmas of this section lead to \<open>re_search_section\<close>: on a pattern
  \<open>START\s*(.*?)\s*END\<close> whose end marker starts with a character that is not whitespace,
  the backtracking search returns the trimmed text between the first occurrence of the start
  marker and the first occurrence of the end marker after it, and fails exactly when there is
  no such pair.
\<close>

lemma greedy_skip:
  assumes "\<And>x s. P x \<Longrightarrow> f (x # s) = None"
  shows "greedy P (\<lambda>_. f) acc s = f (dropWhile P s)"
  using assms by (induction s arbitrary: acc) (auto split: option.splits)

lemma greedy_Some:
  "f (dropWhile P s) = Some r \<Longrightarrow> greedy P (\<lambda>_. f) acc s = Some r"
  by (induction s arbitrary: acc) auto

lemma greedy_None:
  "(\<And>d. suffix d s \<Longrightarrow> f d = None) \<Longrightarrow> greedy P (\<lambda>_. f) acc s = None"
proof (induction s arbitrary: acc)
  case Nil
  then show ?case by simp
next
  case (Cons x s)
  have "f (x # s) = None" using Cons.prems by simp
  moreover have "greedy P (\<lambda>_. f) (acc @ [x]) s = None"
    by (rule Cons.IH) (simp add: Cons.prems suffix_ConsI)
  ultimately show ?case by simp
qed

lemma mh_Lit:
  "match_here (Lit l # p) s = (if prefix l s then match_here p (drop (length l) s) else None)"
  by simp

lemma mh_Star_Greedy:
  "match_here (Star c Greedy # p) s = greedy (in_class c) (\<lambda>_. match_here p) [] s"
  by simp

lemma mh_Group_Lazy:
  "match_here (GroupStar c Lazy # p) s =
     lazy (in_class c) (\<lambda>g rest. map_option ((#) g) (match_here p rest)) [] s"
  by simp

lemma in_class_Space: "in_class Space = isspace"
  by (rule ext) simp

lemma in_class_AnyChar: "in_class AnyChar = (\<lambda>_. True)"
  by (rule ext) simp

lemma mh_Lit_space:
  assumes "stop \<noteq> []" "\<not> isspace (hd stop)" "isspace x"
  shows "match_here [Lit stop] (x # s) = None"
proof -
  have "\<not> prefix stop (x # s)" using assms by (cases stop) (auto simp: prefix_Cons)
  then show ?thesis unfolding mh_Lit by simp
qed

lemma after_group_eq:
  assumes "stop \<noteq> []" "\<not> isspace (hd stop)"
  shows "after_group stop g rest =
           (if prefix stop (dropWhile isspace rest) then Some [g] else None)"
proof -
  have "greedy isspace (\<lambda>_. match_here [Lit stop]) [] rest =
          match_here [Lit stop] (dropWhile isspace rest)"
    by (rule greedy_skip) (rule mh_Lit_space [OF assms])
  then have "match_here [Star Space Greedy, Lit stop] rest =
          match_here [Lit stop] (dropWhile isspace rest)"
    unfolding mh_Star_Greedy in_class_Space .
  then show ?thesis unfolding after_group_def mh_Lit by simp
qed

lemma lazy_found:
  assumes "stop \<noteq> []" "\<not> isspace (hd stop)"
  shows "split_first stop s = Some (a, post) \<Longrightarrow>
         lazy (\<lambda>_. True) (after_group stop) acc s = Some [acc @ rstrip a]"
proof (induction s arbitrary: acc a)
  case Nil
  then show ?case using assms by simp
next
  case (Cons x s)
  note ag = after_group_eq [OF assms]
  have xs: "x # s = a @ stop @ post" using Cons.prems by (rule split_first_SomeD)
  have fa: "first_at stop a post" using Cons.prems by (rule split_first_first_at)
  have hd_keep: "dropWhile isspace (stop @ post) = stop @ post"
    using assms by (cases stop) simp_all
  show ?case
  proof (cases "\<forall>c\<in>set a. isspace c")
    case True
    then have "dropWhile isspace (x # s) = stop @ post"
      unfolding xs using hd_keep by (simp add: dropWhile_append)
    then have "after_group stop acc (x # s) = Some [acc]" unfolding ag by simp
    then show ?thesis using True by (simp add: rstrip_all_space)
  next
    case False
    then have d: "dropWhile isspace (x # s) = dropWhile isspace a @ stop @ post"
      unfolding xs by (metis dropWhile_append1)
    have "dropWhile isspace a \<noteq> []" using False by (simp add: dropWhile_eq_Nil_conv)
    then have "\<not> prefix stop (dropWhile isspace a @ stop @ post)"
      using fa suffix_dropWhile unfolding first_at_def by blast
    then have none: "after_group stop acc (x # s) = None" unfolding ag d by simp
    from False obtain a' where a': "a = x # a'" using xs by (cases a) auto
    have "\<not> prefix stop (x # s)"
      using fa unfolding first_at_def xs a' by (metis list.distinct(1) suffix_order.order_refl)
    then have "split_first stop s = Some (a', post)"
      using Cons.prems a' by auto
    then have "lazy (\<lambda>_. True) (after_group stop) (acc @ [x]) s = Some [(acc @ [x]) @ rstrip a']"
      by (rule Cons.IH)
    then show ?thesis using none False a' by (simp add: rstrip_Cons)
  qed
qed

lemma lazy_absent:
  assumes "stop \<noteq> []" "\<not> isspace (hd stop)"
  shows "\<not> sublist stop s \<Longrightarrow> lazy (\<lambda>_. True) (after_group stop) acc s = None"
proof (induction s arbitrary: acc)
  case Nil
  then show ?case using assms by (simp add: after_group_eq)
next
  case (Cons x s)
  have "sublist (dropWhile isspace (x # s)) (x # s)" by (rule sublist_dropWhile)
  then have "\<not> prefix stop (dropWhile isspace (x # s))"
    using Cons.prems by (meson prefix_imp_sublist sublist_order.order_trans)
  then have "after_group stop acc (x # s) = None"
    unfolding after_group_eq [OF assms] by simp
  moreover have "\<not> sublist stop s" using Cons.prems by (simp add: sublist_Cons_right)
  ultimately show ?case using Cons.IH by simp
qed

lemma group_part:
  "match_here [GroupStar AnyChar Lazy, Star Space Greedy, Lit stop] rest =
     lazy (\<lambda>_. True) (after_group stop) [] rest"
proof -
  have "after_group stop =
          (\<lambda>g rest. map_option ((#) g) (match_here [Star Space Greedy, Lit stop] rest))"
    by (intro ext) (rule after_group_def)
  then show ?thesis unfolding mh_Group_Lazy in_class_AnyChar by simp
qed

lemma group_part_found:
  assumes "stop \<noteq> []" "\<not> isspace (hd stop)" "split_first stop r = Some (a, post)"
  shows "match_here [GroupStar AnyChar Lazy, Star Space Greedy, Lit stop] (dropWhile isspace r) =
           Some [strip a]"
proof -
  have r: "r = a @ stop @ post" using assms(3) by (rule split_first_SomeD)
  have "dropWhile isspace (stop @ post) = stop @ post"
    using assms by (cases stop) simp_all
  then have d: "dropWhile isspace r = lstrip a @ stop @ post"
    unfolding r lstrip_def by (simp add: dropWhile_append dropWhile_eq_Nil_conv)
  have "first_at stop a post" using assms(3) by (rule split_first_first_at)
  then have "first_at stop (lstrip a) post"
    by (rule first_at_suffix) (rule lstrip_suffix)
  then have "split_first stop (lstrip a @ stop @ post) = Some (lstrip a, post)"
    by (rule first_at_split_first)
  then have "lazy (\<lambda>_. True) (after_group stop) [] (lstrip a @ stop @ post) =
               Some [[] @ rstrip (lstrip a)]"
    by (rule lazy_found [OF assms(1,2)])
  then show ?thesis unfolding group_part d strip_def by simp
qed

lemma group_part_absent:
  assumes "stop \<noteq> []" "\<not> isspace (hd stop)" "\<not> sublist stop r"
  shows "match_here [GroupStar AnyChar Lazy, Star Space Greedy, Lit stop] r = None"
  unfolding group_part using assms by (rule lazy_absent)

lemma match_here_section:
  assumes "stop \<noteq> []" "\<not> isspace (hd stop)"
  shows "match_here (section_re start stop) s =
           (if prefix start s
            then map_option (\<lambda>(a, post). [strip a]) (split_first stop (drop (length start) s))
            else None)"
proof (cases "prefix start s")
  case False
  then show ?thesis unfolding section_re_def mh_Lit by simp
next
  case True
  let ?r = "drop (length start) s"
  let ?f = "match_here [GroupStar AnyChar Lazy, Star Space Greedy, Lit stop]"
  have unfold: "match_here (section_re start stop) s = greedy isspace (\<lambda>_. ?f) [] ?r"
    using True unfolding section_re_def
    by (simp only: mh_Lit [of start] mh_Star_Greedy [of Space] in_class_Space if_True)
  show ?thesis
  proof (cases "split_first stop ?r")
    case None
    then have no: "\<not> sublist stop ?r" by (simp add: split_first_None)
    have "greedy isspace (\<lambda>_. ?f) [] ?r = None"
    proof (rule greedy_None)
      fix d assume "suffix d ?r"
      then have "\<not> sublist stop d"
        using no by (meson suffix_imp_sublist sublist_order.order_trans)
      then show "?f d = None" by (rule group_part_absent [OF assms])
    qed
    then show ?thesis using True None unfold by (simp del: match_here.simps)
  next
    case (Some ap)
    obtain a post where ap: "ap = (a, post)" by (cases ap)
    have "?f (dropWhile isspace ?r) = Some [strip a]"
      using assms Some unfolding ap by (rule group_part_found)
    then have "greedy isspace (\<lambda>_. ?f) [] ?r = Some [strip a]" by (rule greedy_Some)
    then show ?thesis using True Some ap unfold by (simp del: match_here.simps)
  qed
qed

lemma drop_sublist_Cons: "sublist m (drop n t) \<Longrightarrow> sublist m (drop n (x # t))"
proof (cases n)
  case 0
  assume "sublist m (drop n t)"
  then show ?thesis using 0 by (simp add: sublist_Cons_right)
next
  case (Suc k)
  assume "sublist m (drop n t)"
  moreover have "sublist (drop n t) (drop k t)"
    unfolding Suc drop_Suc tl_drop [symmetric] by (rule sublist_tl)
  ultimately have "sublist m (drop k t)" by (rule sublist_order.order_trans)
  then show ?thesis unfolding Suc by simp
qed

lemma re_search_absent:
  assumes "stop \<noteq> []" "\<not> isspace (hd stop)"
  shows "\<not> sublist stop (drop (length start) t) \<Longrightarrow> re_search (section_re start stop) t = None"
proof (induction t)
  case Nil
  show ?case unfolding re_search.simps match_here_section [OF assms] using assms(1) by simp
next
  case (Cons x t)
  have "\<not> sublist stop (drop (length start) t)"
    using Cons.prems by (rule contrapos_nn) (rule drop_sublist_Cons)
  then have "re_search (section_re start stop) t = None" by (rule Cons.IH)
  moreover have "split_first stop (drop (length start) (x # t)) = None"
    using Cons.prems by (simp add: split_first_None)
  then have "match_here (section_re start stop) (x # t) = None"
    unfolding match_here_section [OF assms] by simp
  ultimately show ?case unfolding re_search.simps by simp
qed


theorem re_search_section:
  assumes "stop \<noteq> []" "\<not> isspace (hd stop)"
  shows "re_search (section_re start stop) t =
           map_option (\<lambda>a. [strip a]) (section_body start stop t)"
proof (induction t)
  case Nil
  show ?case using assms(1)
    by (simp add: match_here_section [OF assms] section_body_def del: match_here.simps)
next
  case (Cons x t)
  note mh = match_here_section [OF assms, of start "x # t"]
  show ?case
  proof (cases "prefix start (x # t)")
    case False
    then have "match_here (section_re start stop) (x # t) = None" unfolding mh by simp
    moreover have "section_body start stop (x # t) = section_body start stop t"
      using False by (cases "split_first start t") (auto simp: section_body_def)
    ultimately show ?thesis using Cons.IH by (simp del: match_here.simps)
  next
    case True
    let ?r = "drop (length start) (x # t)"
    have sb: "section_body start stop (x # t) = map_option fst (split_first stop ?r)"
      using True by (simp add: section_body_def)
    show ?thesis
    proof (cases "split_first stop ?r")
      case None
      then have "\<not> sublist stop ?r" by (simp add: split_first_None)
      then have "\<not> sublist stop (drop (length start) t)"
        by (rule contrapos_nn) (rule drop_sublist_Cons)
      then have "re_search (section_re start stop) t = None"
        by (rule re_search_absent [OF assms])
      moreover have "match_here (section_re start stop) (x # t) = None"
        unfolding mh using None by simp
      ultimately show ?thesis using None sb by (simp del: match_here.simps)
    next
      case (Some ap)
      then have "match_here (section_re start stop) (x # t) = Some [strip (fst ap)]"
        unfolding mh using True by (cases ap) simp
      then show ?thesis using Some sb by (simp del: match_here.simps)
    qed
  qed
qed

section \<open>The four markers\<close>

lemma RAW_TRANSCRIPT_START_codes:
  "RAW_TRANSCRIPT_START =
     [60, 60, 60, 82, 65, 87, 95, 84, 82, 65, 78, 83, 67, 82, 73, 80, 84, 95, 83, 84, 65, 82, 84,
      62, 62, 62]"
  by (simp add: RAW_TRANSCRIPT_START_def lit_def)

lemma RAW_TRANSCRIPT_END_codes:
  "RAW_TRANSCRIPT_END =
     [60, 60, 60, 82, 65, 87, 95, 84, 82, 65, 78, 83, 67, 82, 73, 80, 84, 95, 69, 78, 68,
      62, 62, 62]"
  by (simp add: RAW_TRANSCRIPT_END_def lit_def)

lemma ACCESSIBLE_NOTES_START_codes:
  "ACCESSIBLE_NOTES_START =
     [60, 60, 60, 65, 67, 67, 69, 83, 83, 73, 66, 76, 69, 95, 78, 79, 84, 69, 83, 95, 83, 84, 65,
      82, 84, 62, 62, 62]"
  by (simp add: ACCESSIBLE_NOTES_START_def lit_def)

lemma ACCESSIBLE_NOTES_END_codes:
  "ACCESSIBLE_NOTES_END =
     [60, 60, 60, 65, 67, 67, 69, 83, 83, 73, 66, 76, 69, 95, 78, 79, 84, 69, 83, 95, 69, 78, 68,
      62, 62, 62]"
  by (simp add: ACCESSIBLE_NOTES_END_def lit_def)

lemma marker_RAW_TRANSCRIPT_START: "marker RAW_TRANSCRIPT_START"
  unfolding marker_def border_free_def RAW_TRANSCRIPT_START_codes
  by (simp add: isspace_def upt_conv_Cons)

lemma marker_RAW_TRANSCRIPT_END: "marker RAW_TRANSCRIPT_END"
  unfolding marker_def border_free_def RAW_TRANSCRIPT_END_codes
  by (simp add: isspace_def upt_conv_Cons)

lemma marker_ACCESSIBLE_NOTES_START: "marker ACCESSIBLE_NOTES_START"
  unfolding marker_def border_free_def ACCESSIBLE_NOTES_START_codes
  by (simp add: isspace_def upt_conv_Cons)

lemma marker_ACCESSIBLE_NOTES_END: "marker ACCESSIBLE_NOTES_END"
  unfolding marker_def border_free_def ACCESSIBLE_NOTES_END_codes
  by (simp add: isspace_def upt_conv_Cons)

section \<open>Texts written around a pair of markers\<close>

lemma first_at_not_sublist:
  assumes "first_at m p r" "m \<noteq> []"
  shows "\<not> sublist m p"
proof
  assume "sublist m p"
  then obtain u v where p: "p = u @ m @ v" by (auto simp: sublist_def)
  have "suffix (m @ v) p" unfolding p by (simp add: suffix_def)
  moreover have "m @ v \<noteq> []" using assms(2) by simp
  moreover have "prefix m ((m @ v) @ m @ r)" by simp
  ultimately show False using assms(1) unfolding first_at_def by blast
qed

lemma border_free_first_at:
  assumes "border_free m" "\<not> sublist m p"
  shows "first_at m p r"
  unfolding first_at_def
proof (intro allI impI notI, elim conjE)
  fix d
  assume d: "suffix d p" "d \<noteq> []" and pre: "prefix m (d @ m @ r)"
  show False
  proof (cases "length m \<le> length d")
    case True
    have "prefix d (d @ m @ r)" by simp
    with pre have "prefix m d" using True by (rule prefix_length_prefix)
    then have "sublist m d" by (rule prefix_imp_sublist)
    moreover have "sublist d p" using d(1) by (rule suffix_imp_sublist)
    ultimately have "sublist m p" by (rule sublist_order.order_trans)
    then show False using assms(2) by simp
  next
    case False
    define k where "k = length m - length d"
    have "0 < length d" using d(2) by simp
    then have k: "0 < k" "k < length m" "length m - k = length d"
      using False unfolding k_def by arith+
    have "m = take (length m) (d @ m @ r)"
      using pre by (metis append_eq_conv_conj prefixE)
    also have "\<dots> = d @ take k m" using False by (simp add: k_def)
    finally have m: "m = d @ take k m" .
    have "drop (length d) m = drop (length d) (d @ take k m)" using m by simp
    then have "drop (length m - k) m = take k m" using k(3) by simp
    moreover have "k \<in> set [1..<length m]" using k by simp
    ultimately show False using assms(1) unfolding border_free_def list_all_iff by force
  qed
qed

lemma split_first_marker:
  assumes "border_free m" "\<not> sublist m p"
  shows "split_first m (p @ m @ r) = Some (p, r)"
  by (rule first_at_split_first) (rule border_free_first_at [OF assms])

lemma section_body_pair:
  assumes "border_free start" "border_free stop" "\<not> sublist start pre" "\<not> sublist stop a"
  shows "section_body start stop (pre @ start @ a @ stop @ post) = Some a"
  by (simp add: section_body_def split_first_marker assms)

lemma rstrip_append:
  assumes "u \<noteq> []" "\<not> isspace (last u)"
  shows "rstrip (u @ v) = u @ rstrip v"
proof -
  have "dropWhile isspace (rev u) = rev u"
    using assms by (cases u rule: rev_cases) simp_all
  then show ?thesis
    by (simp add: rstrip_def dropWhile_append)
qed

lemma strip_around:
  assumes "marker start" "marker stop"
  shows "strip (pre @ start @ a @ stop @ post) = lstrip pre @ start @ a @ stop @ rstrip post"
proof -
  have "lstrip (pre @ (start @ a @ stop @ post)) = lstrip pre @ (start @ a @ stop @ post)"
    using assms(1) by (intro lstrip_append_keep) (auto simp: marker_def)
  moreover have "rstrip ((lstrip pre @ start @ a @ stop) @ post) =
                   (lstrip pre @ start @ a @ stop) @ rstrip post"
    using assms(2) by (intro rstrip_append) (auto simp: marker_def)
  ultimately show ?thesis by (simp add: strip_def)
qed

lemma section_body_strip:
  assumes "marker start" "marker stop" "\<not> sublist start pre" "\<not> sublist stop a"
  shows "section_body start stop (strip (pre @ start @ a @ stop @ post)) = Some a"
proof -
  have "sublist (lstrip pre) pre" by (simp add: lstrip_def)
  then have "\<not> sublist start (lstrip pre)"
    using assms(3) by (meson sublist_order.order_trans)
  then show ?thesis
    unfolding strip_around [OF assms(1,2)]
    using assms(1,2,4) by (intro section_body_pair) (auto simp: marker_def)
qed

lemma section_body_SomeD:
  assumes "section_body start stop t = Some a"
  shows "\<exists>u w. t = u @ start @ a @ stop @ w"
proof -
  from assms obtain pre r where 1: "split_first start t = Some (pre, r)"
    by (auto simp: section_body_def split: option.splits)
  with assms obtain post where 2: "split_first stop r = Some (a, post)"
    by (auto simp: section_body_def)
  show ?thesis using split_first_SomeD [OF 1] split_first_SomeD [OF 2] by blast
qed

lemma section_body_no_stop:
  assumes "section_body start stop t = Some a" "stop \<noteq> []"
  shows "\<not> sublist stop a"
proof -
  from assms obtain pre r where 1: "split_first start t = Some (pre, r)"
    by (auto simp: section_body_def split: option.splits)
  with assms obtain post where 2: "split_first stop r = Some (a, post)"
    by (auto simp: section_body_def)
  show ?thesis using split_first_first_at [OF 2] assms(2) by (rule first_at_not_sublist)
qed

lemma strip_decompose: "\<exists>l r. s = l @ strip s @ r"
  using sublist_strip [of s] by (simp add: sublist_def)

lemma section_body_strip_None:
  assumes "\<not> (\<exists>u v w. t = u @ start @ v @ stop @ w)"
  shows "section_body start stop (strip t) = None"
proof (rule ccontr)
  assume "section_body start stop (strip t) \<noteq> None"
  then obtain a where "section_body start stop (strip t) = Some a" by auto
  then obtain u w where "strip t = u @ start @ a @ stop @ w"
    using section_body_SomeD by blast
  moreover obtain l r where "t = l @ strip t @ r" using strip_decompose by blast
  ultimately have "t = (l @ u) @ start @ a @ stop @ (w @ r)" by simp
  then show False using assms by blast
qed

section \<open>The extraction in terms of sections\<close>

lemma raw_re_search:
  "re_search raw_re t =
     map_option (\<lambda>a. [strip a]) (section_body RAW_TRANSCRIPT_START RAW_TRANSCRIPT_END t)"
  unfolding raw_re_def using marker_RAW_TRANSCRIPT_END
  by (intro re_search_section) (simp_all add: marker_def)

lemma notes_re_search:
  "re_search notes_re t =
     map_option (\<lambda>a. [strip a]) (section_body ACCESSIBLE_NOTES_START ACCESSIBLE_NOTES_END t)"
  unfolding notes_re_def using marker_ACCESSIBLE_NOTES_END
  by (intro re_search_section) (simp_all add: marker_def)

lemma extract_text_eq:
  "extract_text response_text =
     Inr \<lparr>raw_transcript =
            (case section_body RAW_TRANSCRIPT_START RAW_TRANSCRIPT_END (full_text_of response_text) of
               None \<Rightarrow> full_text_of response_text
             | Some a \<Rightarrow> strip a),
          accessible_transcript =
            (case section_body ACCESSIBLE_NOTES_START ACCESSIBLE_NOTES_END
                    (full_text_of response_text) of
               None \<Rightarrow> fallback_notice @ full_text_of response_text
             | Some b \<Rightarrow> strip b)\<rparr>"
  unfolding extract_text_def full_text_of_def [symmetric] Let_def raw_re_search notes_re_search
  by (simp add: group_def strip_idem split: option.splits)

lemma split_first_before:
  assumes "split_first m t = Some (p, r)" "t = u @ m @ x"
  shows "length p \<le> length u"
proof (rule ccontr)
  assume "\<not> length p \<le> length u"
  then have lt: "length u < length p" by simp
  have t: "p @ m @ r = u @ m @ x" using split_first_SomeD [OF assms(1)] assms(2) by simp
  then obtain d where d: "p = u @ d" "d @ m @ r = m @ x"
    using lt by (auto simp: append_eq_append_conv2)
  then have "d \<noteq> []" using lt by auto
  moreover have "suffix d p" using d(1) by (simp add: suffix_def)
  moreover have "prefix m (d @ m @ r)" unfolding d(2) by simp
  ultimately show False
    using split_first_first_at [OF assms(1)] unfolding first_at_def by blast
qed

lemma section_body_SomeI:
  assumes "t = u @ start @ v @ stop @ w"
  shows "section_body start stop t \<noteq> None"
proof -
  have "sublist start t" unfolding assms by simp
  then obtain p r where pr: "split_first start t = Some (p, r)"
    using split_first_None [of start t] by (cases "split_first start t") auto
  have le: "length p \<le> length u" using pr assms by (rule split_first_before)
  have t: "t = p @ start @ r" using pr by (rule split_first_SomeD)
  have "suffix (v @ stop @ w) t" unfolding assms by (simp add: suffix_def)
  moreover have "suffix r t" unfolding t by (simp add: suffix_def)
  moreover have "length (v @ stop @ w) \<le> length r"
  proof -
    have "length t = length p + length start + length r" by (subst t) simp
    moreover have "length t = length u + length start + length (v @ stop @ w)"
      by (subst assms) simp
    ultimately show ?thesis using le by linarith
  qed
  ultimately have "suffix (v @ stop @ w) r" by (rule suffix_length_suffix)
  then have "sublist (v @ stop @ w) r" by (rule suffix_imp_sublist)
  moreover have "sublist stop (v @ stop @ w)" by simp
  ultimately have "sublist stop r" by (meson sublist_order.order_trans)
  then have "split_first stop r \<noteq> None" by (simp add: split_first_None)
  then show ?thesis using pr by (auto simp: section_body_def)
qed

lemma no_pair_iff:
  "(\<nexists>u v w. t = u @ start @ v @ stop @ w) \<longleftrightarrow> section_body start stop t = None"
proof
  assume "\<nexists>u v w. t = u @ start @ v @ stop @ w"
  then show "section_body start stop t = None"
    using section_body_SomeD by (cases "section_body start stop t") blast+
next
  assume "section_body start stop t = None"
  then show "\<nexists>u v w. t = u @ start @ v @ stop @ w"
    using section_body_SomeI by blast
qed

lemma full_text_of_Some: "full_text_of (Some t) = strip t"
  by (simp add: full_text_of_def)

lemma raw_section:
  assumes "\<not> sublist RAW_TRANSCRIPT_START pre" "\<not> sublist RAW_TRANSCRIPT_END a"
  shows "section_body RAW_TRANSCRIPT_START RAW_TRANSCRIPT_END
           (strip (pre @ RAW_TRANSCRIPT_START @ a @ RAW_TRANSCRIPT_END @ post)) = Some a"
  using marker_RAW_TRANSCRIPT_START marker_RAW_TRANSCRIPT_END assms
  by (rule section_body_strip)

lemma notes_section:
  assumes "\<not> sublist ACCESSIBLE_NOTES_START pre" "\<not> sublist ACCESSIBLE_NOTES_END b"
  shows "section_body ACCESSIBLE_NOTES_START ACCESSIBLE_NOTES_END
           (strip (pre @ ACCESSIBLE_NOTES_START @ b @ ACCESSIBLE_NOTES_END @ post)) = Some b"
  using marker_ACCESSIBLE_NOTES_START marker_ACCESSIBLE_NOTES_END assms
  by (rule section_body_strip)

lemma extract_text_Some:
  "extract_text (Some t) =
     Inr \<lparr>raw_transcript =
            (case section_body RAW_TRANSCRIPT_START RAW_TRANSCRIPT_END (strip t) of
               None \<Rightarrow> strip t
             | Some a \<Rightarrow> strip a),
          accessible_transcript =
            (case section_body ACCESSIBLE_NOTES_START ACCESSIBLE_NOTES_END (strip t) of
               None \<Rightarrow> fallback_notice @ strip t
             | Some b \<Rightarrow> strip b)\<rparr>"
  unfolding extract_text_eq full_text_of_Some ..

section \<open>The claims\<close>

text \<open>
  C1. When the response holds a raw-transcript pair and, after it, an accessible-notes pair,
  each start marker being the first of its kind in the text and each end marker the first of
  its kind after its start marker, the extraction returns the trimmed text between each pair,
  unchanged otherwise. Text of whitespace only between a pair gives the empty string. The
  scenario of the claim, with \<open>Hello\<close> and \<open>World\<close>, and a text with whitespace only
  between each pair are the instances proved right after the theorem.
\<close>

theorem extract_well_formed:
  assumes "\<not> sublist RAW_TRANSCRIPT_START pre"
    and "\<not> sublist RAW_TRANSCRIPT_END a"
    and "\<not> sublist ACCESSIBLE_NOTES_START (pre @ RAW_TRANSCRIPT_START @ a @ RAW_TRANSCRIPT_END @ mid)"
    and "\<not> sublist ACCESSIBLE_NOTES_END b"
  shows "extract_text
           (Some (pre @ RAW_TRANSCRIPT_START @ a @ RAW_TRANSCRIPT_END @ mid @
                  ACCESSIBLE_NOTES_START @ b @ ACCESSIBLE_NOTES_END @ post)) =
           Inr \<lparr>raw_transcript = strip a, accessible_transcript = strip b\<rparr> \<and>
         ((\<forall>c\<in>set a. isspace c) \<longrightarrow> strip a = []) \<and>
         ((\<forall>c\<in>set b. isspace c) \<longrightarrow> strip b = [])"
proof -
  let ?t = "pre @ RAW_TRANSCRIPT_START @ a @ RAW_TRANSCRIPT_END @ mid @
            ACCESSIBLE_NOTES_START @ b @ ACCESSIBLE_NOTES_END @ post"
  have raw: "section_body RAW_TRANSCRIPT_START RAW_TRANSCRIPT_END (strip ?t) = Some a"
    using assms(1,2) by (rule raw_section)
  have "section_body ACCESSIBLE_NOTES_START ACCESSIBLE_NOTES_END
          (strip ((pre @ RAW_TRANSCRIPT_START @ a @ RAW_TRANSCRIPT_END @ mid) @
             ACCESSIBLE_NOTES_START @ b @ ACCESSIBLE_NOTES_END @ post)) = Some b"
    using assms(3,4) by (rule notes_section)
  then have acc: "section_body ACCESSIBLE_NOTES_START ACCESSIBLE_NOTES_END (strip ?t) = Some b"
    by (simp only: append_assoc)
  have "extract_text (Some ?t) = Inr \<lparr>raw_transcript = strip a, accessible_transcript = strip b\<rparr>"
    unfolding extract_text_Some raw acc by simp
  then show ?thesis by (simp add: strip_all_space)
qed

theorem extract_well_formed_witness:
  "extract_text
     (Some (RAW_TRANSCRIPT_START @ [10] @ lit ''Hello'' @ [10] @ RAW_TRANSCRIPT_END @ [10, 10] @
            ACCESSIBLE_NOTES_START @ [10] @ lit ''World'' @ [10] @ ACCESSIBLE_NOTES_END)) =
     Inr \<lparr>raw_transcript = lit ''Hello'', accessible_transcript = lit ''World''\<rparr> \<and>
   extract_text
     (Some (RAW_TRANSCRIPT_START @ [32, 10, 9] @ RAW_TRANSCRIPT_END @ [10] @
            ACCESSIBLE_NOTES_START @ [10, 10] @ ACCESSIBLE_NOTES_END)) =
     Inr \<lparr>raw_transcript = [], accessible_transcript = []\<rparr>"
proof -
  have 1: "\<not> sublist RAW_TRANSCRIPT_START []"
    by (simp add: RAW_TRANSCRIPT_START_codes)
  have 2: "\<not> sublist RAW_TRANSCRIPT_END ([10] @ lit ''Hello'' @ [10])"
    by (simp add: RAW_TRANSCRIPT_END_codes lit_def sublist_code)
  have 3: "\<not> sublist ACCESSIBLE_NOTES_START
             ([] @ RAW_TRANSCRIPT_START @ ([10] @ lit ''Hello'' @ [10]) @ RAW_TRANSCRIPT_END @ [10, 10])"
    by (simp add: RAW_TRANSCRIPT_START_codes RAW_TRANSCRIPT_END_codes
        ACCESSIBLE_NOTES_START_codes lit_def sublist_code)
  have 4: "\<not> sublist ACCESSIBLE_NOTES_END ([10] @ lit ''World'' @ [10])"
    by (simp add: ACCESSIBLE_NOTES_END_codes lit_def sublist_code)
  have a: "strip ([10] @ lit ''Hello'' @ [10]) = lit ''Hello''"
    by (simp add: strip_def lstrip_def rstrip_def isspace_def lit_def)
  have b: "strip ([10] @ lit ''World'' @ [10]) = lit ''World''"
    by (simp add: strip_def lstrip_def rstrip_def isspace_def lit_def)
  have scenario:
    "extract_text
       (Some (RAW_TRANSCRIPT_START @ [10] @ lit ''Hello'' @ [10] @ RAW_TRANSCRIPT_END @ [10, 10] @
              ACCESSIBLE_NOTES_START @ [10] @ lit ''World'' @ [10] @ ACCESSIBLE_NOTES_END)) =
     Inr \<lparr>raw_transcript = lit ''Hello'', accessible_transcript = lit ''World''\<rparr>"
    using extract_well_formed [OF 1 2 3 4, of "[]"]
    by (simp only: a b append_Nil append_Nil2 append_assoc)
  have 5: "\<not> sublist RAW_TRANSCRIPT_END [32, 10, 9]"
    by (simp add: RAW_TRANSCRIPT_END_codes sublist_code)
  have 6: "\<not> sublist ACCESSIBLE_NOTES_START
             ([] @ RAW_TRANSCRIPT_START @ [32, 10, 9] @ RAW_TRANSCRIPT_END @ [10])"
    by (simp add: RAW_TRANSCRIPT_START_codes RAW_TRANSCRIPT_END_codes
        ACCESSIBLE_NOTES_START_codes sublist_code)
  have 7: "\<not> sublist ACCESSIBLE_NOTES_END [10, 10]"
    by (simp add: ACCESSIBLE_NOTES_END_codes sublist_code)
  have w: "\<forall>c\<in>set [32, 10, 9]. isspace c" "\<forall>c\<in>set [10, 10]. isspace c"
    by (simp_all add: isspace_def)
  note blank = extract_well_formed [OF 1 5 6 7, of "[]"]
  have "strip [32, 10, 9] = []" "strip [10, 10] = []"
    using blank w by blast+
  then have whitespace_only:
    "extract_text
       (Some (RAW_TRANSCRIPT_START @ [32, 10, 9] @ RAW_TRANSCRIPT_END @ [10] @
              ACCESSIBLE_NOTES_START @ [10, 10] @ ACCESSIBLE_NOTES_END)) =
     Inr \<lparr>raw_transcript = [], accessible_transcript = []\<rparr>"
    using blank by (simp only: append_Nil append_Nil2)
  show ?thesis using scenario whitespace_only by (rule conjI)
qed

text \<open>
  C2. When the text holds no raw-transcript start marker followed later by a raw-transcript end
  marker (a marker is missing, the end marker only precedes the start marker, or the start
  marker is never closed), the raw transcript is the whole trimmed text. The accessible
  transcript is what its own search gives, matched or not.
\<close>

theorem raw_fallback:
  assumes "\<nexists>u v w. t = u @ RAW_TRANSCRIPT_START @ v @ RAW_TRANSCRIPT_END @ w"
  shows "extract_text (Some t) =
           Inr \<lparr>raw_transcript = strip t,
                accessible_transcript =
                  (case section_body ACCESSIBLE_NOTES_START ACCESSIBLE_NOTES_END (strip t) of
                     None \<Rightarrow> fallback_notice @ strip t
                   | Some b \<Rightarrow> strip b)\<rparr>"
proof -
  have "section_body RAW_TRANSCRIPT_START RAW_TRANSCRIPT_END (strip t) = None"
    using assms by (rule section_body_strip_None)
  then show ?thesis unfolding extract_text_Some by simp
qed

theorem raw_fallback_witness:
  "extract_text
     (Some (RAW_TRANSCRIPT_END @ lit ''x'' @ RAW_TRANSCRIPT_START @ [32] @
            ACCESSIBLE_NOTES_START @ lit ''n'' @ ACCESSIBLE_NOTES_END)) =
   Inr \<lparr>raw_transcript =
          RAW_TRANSCRIPT_END @ lit ''x'' @ RAW_TRANSCRIPT_START @ [32] @
          ACCESSIBLE_NOTES_START @ lit ''n'' @ ACCESSIBLE_NOTES_END,
        accessible_transcript = lit ''n''\<rparr>"
proof -
  let ?t = "RAW_TRANSCRIPT_END @ lit ''x'' @ RAW_TRANSCRIPT_START @ [32] @
            ACCESSIBLE_NOTES_START @ lit ''n'' @ ACCESSIBLE_NOTES_END"
  have "section_body RAW_TRANSCRIPT_START RAW_TRANSCRIPT_END ?t = None"
    by (simp add: section_body_def RAW_TRANSCRIPT_START_codes RAW_TRANSCRIPT_END_codes
        ACCESSIBLE_NOTES_START_codes ACCESSIBLE_NOTES_END_codes lit_def)
  then have h: "\<nexists>u v w. ?t = u @ RAW_TRANSCRIPT_START @ v @ RAW_TRANSCRIPT_END @ w"
    by (simp only: no_pair_iff)
  have s: "strip ?t = ?t"
    by (simp add: strip_def lstrip_def rstrip_def isspace_def RAW_TRANSCRIPT_START_codes RAW_TRANSCRIPT_END_codes
        ACCESSIBLE_NOTES_START_codes ACCESSIBLE_NOTES_END_codes lit_def)
  have n: "section_body ACCESSIBLE_NOTES_START ACCESSIBLE_NOTES_END ?t = Some (lit ''n'')"
    by (simp add: section_body_def RAW_TRANSCRIPT_START_codes RAW_TRANSCRIPT_END_codes
        ACCESSIBLE_NOTES_START_codes ACCESSIBLE_NOTES_END_codes lit_def)
  have b: "strip (lit ''n'') = lit ''n''"
    by (simp add: strip_def lstrip_def rstrip_def isspace_def lit_def)
  show ?thesis using raw_fallback [OF h] by (simp only: s n b option.case)
qed

text \<open>
  C3. When the text holds no accessible-notes start marker followed later by an
  accessible-notes end marker, the accessible transcript is the fixed notice of the source,
  \<open>Accessible notes could not be parsed from the model response.\<close> and two newlines,
  followed by the whole trimmed text, so it starts with the notice and ends with that text.
  The raw transcript is what its own search gives, extracted or not.
\<close>

theorem notes_fallback:
  assumes "\<nexists>u v w. t = u @ ACCESSIBLE_NOTES_START @ v @ ACCESSIBLE_NOTES_END @ w"
  shows "extract_text (Some t) =
           Inr \<lparr>raw_transcript =
                  (case section_body RAW_TRANSCRIPT_START RAW_TRANSCRIPT_END (strip t) of
                     None \<Rightarrow> strip t
                   | Some a \<Rightarrow> strip a),
                accessible_transcript =
                  lit ''Accessible notes could not be parsed from the model response.'' @
                  [10, 10] @ strip t\<rparr>"
proof -
  have "section_body ACCESSIBLE_NOTES_START ACCESSIBLE_NOTES_END (strip t) = None"
    using assms by (rule section_body_strip_None)
  then show ?thesis unfolding extract_text_Some fallback_notice_def by simp
qed

theorem notes_fallback_witness:
  "extract_text
     (Some (RAW_TRANSCRIPT_START @ lit '' hi '' @ RAW_TRANSCRIPT_END @ [10] @
            ACCESSIBLE_NOTES_END @ lit ''x'' @ ACCESSIBLE_NOTES_START)) =
   Inr \<lparr>raw_transcript = lit ''hi'',
        accessible_transcript =
          lit ''Accessible notes could not be parsed from the model response.'' @ [10, 10] @
          RAW_TRANSCRIPT_START @ lit '' hi '' @ RAW_TRANSCRIPT_END @ [10] @
          ACCESSIBLE_NOTES_END @ lit ''x'' @ ACCESSIBLE_NOTES_START\<rparr>"
proof -
  let ?t = "RAW_TRANSCRIPT_START @ lit '' hi '' @ RAW_TRANSCRIPT_END @ [10] @
            ACCESSIBLE_NOTES_END @ lit ''x'' @ ACCESSIBLE_NOTES_START"
  have "section_body ACCESSIBLE_NOTES_START ACCESSIBLE_NOTES_END ?t = None"
    by (simp add: section_body_def RAW_TRANSCRIPT_START_codes RAW_TRANSCRIPT_END_codes
        ACCESSIBLE_NOTES_START_codes ACCESSIBLE_NOTES_END_codes lit_def)
  then have h: "\<nexists>u v w. ?t = u @ ACCESSIBLE_NOTES_START @ v @ ACCESSIBLE_NOTES_END @ w"
    by (simp only: no_pair_iff)
  have s: "strip ?t = ?t"
    by (simp add: strip_def lstrip_def rstrip_def isspace_def RAW_TRANSCRIPT_START_codes
        RAW_TRANSCRIPT_END_codes ACCESSIBLE_NOTES_START_codes ACCESSIBLE_NOTES_END_codes lit_def)
  have r: "section_body RAW_TRANSCRIPT_START RAW_TRANSCRIPT_END ?t = Some (lit '' hi '')"
    by (simp add: section_body_def RAW_TRANSCRIPT_START_codes RAW_TRANSCRIPT_END_codes
        ACCESSIBLE_NOTES_START_codes ACCESSIBLE_NOTES_END_codes lit_def)
  have a: "strip (lit '' hi '') = lit ''hi''"
    by (simp add: strip_def lstrip_def rstrip_def isspace_def lit_def)
  show ?thesis using notes_fallback [OF h] by (simp only: s r a option.case)
qed

text \<open>
  C4. The claim that the extracted text never spans a second start marker fails: on
  \<open>START a START b END\<close> the raw transcript is \<open>a START b\<close>, which contains the start
  marker.
\<close>

theorem duplicate_start_counterexample:
  "extract_text
     (Some (RAW_TRANSCRIPT_START @ lit ''a'' @ RAW_TRANSCRIPT_START @ lit ''b'' @
            RAW_TRANSCRIPT_END)) =
   Inr \<lparr>raw_transcript = lit ''a'' @ RAW_TRANSCRIPT_START @ lit ''b'',
        accessible_transcript =
          fallback_notice @ RAW_TRANSCRIPT_START @ lit ''a'' @ RAW_TRANSCRIPT_START @ lit ''b'' @
          RAW_TRANSCRIPT_END\<rparr> \<and>
   sublist RAW_TRANSCRIPT_START (lit ''a'' @ RAW_TRANSCRIPT_START @ lit ''b'')"
proof -
  let ?t = "RAW_TRANSCRIPT_START @ lit ''a'' @ RAW_TRANSCRIPT_START @ lit ''b'' @
            RAW_TRANSCRIPT_END"
  have s: "strip ?t = ?t"
    by (simp add: strip_def lstrip_def rstrip_def isspace_def RAW_TRANSCRIPT_START_codes
        RAW_TRANSCRIPT_END_codes lit_def)
  have r: "section_body RAW_TRANSCRIPT_START RAW_TRANSCRIPT_END ?t =
             Some (lit ''a'' @ RAW_TRANSCRIPT_START @ lit ''b'')"
    by (simp add: section_body_def RAW_TRANSCRIPT_START_codes RAW_TRANSCRIPT_END_codes lit_def)
  have n: "section_body ACCESSIBLE_NOTES_START ACCESSIBLE_NOTES_END ?t = None"
    by (simp add: section_body_def RAW_TRANSCRIPT_START_codes RAW_TRANSCRIPT_END_codes
        ACCESSIBLE_NOTES_START_codes lit_def)
  have a: "strip (lit ''a'' @ RAW_TRANSCRIPT_START @ lit ''b'') =
             lit ''a'' @ RAW_TRANSCRIPT_START @ lit ''b''"
    by (simp add: strip_def lstrip_def rstrip_def isspace_def RAW_TRANSCRIPT_START_codes lit_def)
  have "extract_text (Some ?t) =
          Inr \<lparr>raw_transcript = lit ''a'' @ RAW_TRANSCRIPT_START @ lit ''b'',
               accessible_transcript = fallback_notice @ ?t\<rparr>"
    by (simp only: extract_text_Some s r n a option.case)
  then show ?thesis by simp
qed

text \<open>
  C4, as amended. Matching is non-greedy: for every text in which a start marker is followed
  by its end marker, written with \<open>pre\<close> the text before the first start marker and \<open>c\<close>
  the text up to the first end marker after it, the extracted text is \<open>c\<close> trimmed, whatever
  \<open>c\<close> contains. In particular a second start marker inside \<open>c\<close> is part of the extracted
  text. This holds for both pairs.
\<close>

theorem first_start_to_first_end:
  "(\<not> sublist RAW_TRANSCRIPT_START pre \<and> \<not> sublist RAW_TRANSCRIPT_END c \<longrightarrow>
    (\<exists>accessible.
       extract_text (Some (pre @ RAW_TRANSCRIPT_START @ c @ RAW_TRANSCRIPT_END @ post)) =
       Inr \<lparr>raw_transcript = strip c, accessible_transcript = accessible\<rparr>)) \<and>
   (\<not> sublist RAW_TRANSCRIPT_START pre \<and>
    \<not> sublist RAW_TRANSCRIPT_END (a @ RAW_TRANSCRIPT_START @ b) \<longrightarrow>
    (\<exists>accessible.
       extract_text
         (Some (pre @ RAW_TRANSCRIPT_START @ a @ RAW_TRANSCRIPT_START @ b @
                RAW_TRANSCRIPT_END @ post)) =
       Inr \<lparr>raw_transcript = strip (a @ RAW_TRANSCRIPT_START @ b),
            accessible_transcript = accessible\<rparr>)) \<and>
   (\<not> sublist ACCESSIBLE_NOTES_START pre \<and> \<not> sublist ACCESSIBLE_NOTES_END c \<longrightarrow>
    (\<exists>raw.
       extract_text (Some (pre @ ACCESSIBLE_NOTES_START @ c @ ACCESSIBLE_NOTES_END @ post)) =
       Inr \<lparr>raw_transcript = raw, accessible_transcript = strip c\<rparr>)) \<and>
   (\<not> sublist ACCESSIBLE_NOTES_START pre \<and>
    \<not> sublist ACCESSIBLE_NOTES_END (a @ ACCESSIBLE_NOTES_START @ b) \<longrightarrow>
    (\<exists>raw.
       extract_text
         (Some (pre @ ACCESSIBLE_NOTES_START @ a @ ACCESSIBLE_NOTES_START @ b @
                ACCESSIBLE_NOTES_END @ post)) =
       Inr \<lparr>raw_transcript = raw,
            accessible_transcript = strip (a @ ACCESSIBLE_NOTES_START @ b)\<rparr>))"
proof -
  have raw_any: "\<exists>accessible.
       extract_text (Some (pre @ RAW_TRANSCRIPT_START @ d @ RAW_TRANSCRIPT_END @ post)) =
       Inr \<lparr>raw_transcript = strip d, accessible_transcript = accessible\<rparr>"
    if "\<not> sublist RAW_TRANSCRIPT_START pre" "\<not> sublist RAW_TRANSCRIPT_END d" for d
  proof -
    have "section_body RAW_TRANSCRIPT_START RAW_TRANSCRIPT_END
            (strip (pre @ RAW_TRANSCRIPT_START @ d @ RAW_TRANSCRIPT_END @ post)) = Some d"
      using that by (rule raw_section)
    then show ?thesis unfolding extract_text_Some by simp
  qed
  have notes_any: "\<exists>raw.
       extract_text (Some (pre @ ACCESSIBLE_NOTES_START @ d @ ACCESSIBLE_NOTES_END @ post)) =
       Inr \<lparr>raw_transcript = raw, accessible_transcript = strip d\<rparr>"
    if "\<not> sublist ACCESSIBLE_NOTES_START pre" "\<not> sublist ACCESSIBLE_NOTES_END d" for d
  proof -
    have "section_body ACCESSIBLE_NOTES_START ACCESSIBLE_NOTES_END
            (strip (pre @ ACCESSIBLE_NOTES_START @ d @ ACCESSIBLE_NOTES_END @ post)) = Some d"
      using that by (rule notes_section)
    then show ?thesis unfolding extract_text_Some by simp
  qed
  have raw_dup: "\<exists>accessible.
       extract_text
         (Some (pre @ RAW_TRANSCRIPT_START @ a @ RAW_TRANSCRIPT_START @ b @
                RAW_TRANSCRIPT_END @ post)) =
       Inr \<lparr>raw_transcript = strip (a @ RAW_TRANSCRIPT_START @ b),
            accessible_transcript = accessible\<rparr>"
    if "\<not> sublist RAW_TRANSCRIPT_START pre"
      "\<not> sublist RAW_TRANSCRIPT_END (a @ RAW_TRANSCRIPT_START @ b)"
    using raw_any [OF that] by (simp only: append_assoc)
  have notes_dup: "\<exists>raw.
       extract_text
         (Some (pre @ ACCESSIBLE_NOTES_START @ a @ ACCESSIBLE_NOTES_START @ b @
                ACCESSIBLE_NOTES_END @ post)) =
       Inr \<lparr>raw_transcript = raw,
            accessible_transcript = strip (a @ ACCESSIBLE_NOTES_START @ b)\<rparr>"
    if "\<not> sublist ACCESSIBLE_NOTES_START pre"
      "\<not> sublist ACCESSIBLE_NOTES_END (a @ ACCESSIBLE_NOTES_START @ b)"
    using notes_any [OF that] by (simp only: append_assoc)
  show ?thesis
  proof (intro conjI impI)
    assume "\<not> sublist RAW_TRANSCRIPT_START pre \<and> \<not> sublist RAW_TRANSCRIPT_END c"
    then show "\<exists>accessible.
       extract_text (Some (pre @ RAW_TRANSCRIPT_START @ c @ RAW_TRANSCRIPT_END @ post)) =
       Inr \<lparr>raw_transcript = strip c, accessible_transcript = accessible\<rparr>"
      using raw_any [of c] by (elim conjE)
  next
    assume "\<not> sublist RAW_TRANSCRIPT_START pre \<and>
            \<not> sublist RAW_TRANSCRIPT_END (a @ RAW_TRANSCRIPT_START @ b)"
    then show "\<exists>accessible.
       extract_text
         (Some (pre @ RAW_TRANSCRIPT_START @ a @ RAW_TRANSCRIPT_START @ b @
                RAW_TRANSCRIPT_END @ post)) =
       Inr \<lparr>raw_transcript = strip (a @ RAW_TRANSCRIPT_START @ b),
            accessible_transcript = accessible\<rparr>"
      using raw_dup by (elim conjE)
  next
    assume "\<not> sublist ACCESSIBLE_NOTES_START pre \<and> \<not> sublist ACCESSIBLE_NOTES_END c"
    then show "\<exists>raw.
       extract_text (Some (pre @ ACCESSIBLE_NOTES_START @ c @ ACCESSIBLE_NOTES_END @ post)) =
       Inr \<lparr>raw_transcript = raw, accessible_transcript = strip c\<rparr>"
      using notes_any [of c] by (elim conjE)
  next
    assume "\<not> sublist ACCESSIBLE_NOTES_START pre \<and>
            \<not> sublist ACCESSIBLE_NOTES_END (a @ ACCESSIBLE_NOTES_START @ b)"
    then show "\<exists>raw.
       extract_text
         (Some (pre @ ACCESSIBLE_NOTES_START @ a @ ACCESSIBLE_NOTES_START @ b @
                ACCESSIBLE_NOTES_END @ post)) =
       Inr \<lparr>raw_transcript = raw,
            accessible_transcript = strip (a @ ACCESSIBLE_NOTES_START @ b)\<rparr>"
      using notes_dup by (elim conjE)
  qed
qed

theorem first_start_to_first_end_witness:
  "(\<exists>accessible.
      extract_text
        (Some (lit ''x'' @ RAW_TRANSCRIPT_START @ lit '' only '' @ RAW_TRANSCRIPT_END @ [])) =
      Inr \<lparr>raw_transcript = lit ''only'', accessible_transcript = accessible\<rparr>) \<and>
   (\<exists>accessible.
      extract_text
        (Some (lit ''x'' @ RAW_TRANSCRIPT_START @ lit '' p'' @ RAW_TRANSCRIPT_START @ lit ''q '' @
               RAW_TRANSCRIPT_END @ [])) =
      Inr \<lparr>raw_transcript = lit ''p'' @ RAW_TRANSCRIPT_START @ lit ''q'',
           accessible_transcript = accessible\<rparr>) \<and>
   (\<exists>raw.
      extract_text
        (Some (lit ''x'' @ ACCESSIBLE_NOTES_START @ lit '' only '' @ ACCESSIBLE_NOTES_END @ [])) =
      Inr \<lparr>raw_transcript = raw, accessible_transcript = lit ''only''\<rparr>) \<and>
   (\<exists>raw.
      extract_text
        (Some (lit ''x'' @ ACCESSIBLE_NOTES_START @ lit '' p'' @ ACCESSIBLE_NOTES_START @
               lit ''q '' @ ACCESSIBLE_NOTES_END @ [])) =
      Inr \<lparr>raw_transcript = raw,
           accessible_transcript = lit ''p'' @ ACCESSIBLE_NOTES_START @ lit ''q''\<rparr>)"
proof -
  note inst =
    first_start_to_first_end [of "lit ''x''" "lit '' only ''" "[]" "lit '' p''" "lit ''q ''"]
  have 1: "\<not> sublist RAW_TRANSCRIPT_START (lit ''x'')"
    by (simp add: RAW_TRANSCRIPT_START_codes lit_def sublist_code)
  have 2: "\<not> sublist RAW_TRANSCRIPT_END (lit '' p'' @ RAW_TRANSCRIPT_START @ lit ''q '')"
    by (simp add: RAW_TRANSCRIPT_START_codes RAW_TRANSCRIPT_END_codes lit_def sublist_code)
  have 3: "\<not> sublist ACCESSIBLE_NOTES_START (lit ''x'')"
    by (simp add: ACCESSIBLE_NOTES_START_codes lit_def sublist_code)
  have 4: "\<not> sublist ACCESSIBLE_NOTES_END (lit '' p'' @ ACCESSIBLE_NOTES_START @ lit ''q '')"
    by (simp add: ACCESSIBLE_NOTES_START_codes ACCESSIBLE_NOTES_END_codes lit_def sublist_code)
  have 5: "\<not> sublist RAW_TRANSCRIPT_END (lit '' only '')"
    by (simp add: RAW_TRANSCRIPT_END_codes lit_def sublist_code)
  have 6: "\<not> sublist ACCESSIBLE_NOTES_END (lit '' only '')"
    by (simp add: ACCESSIBLE_NOTES_END_codes lit_def sublist_code)
  have a: "strip (lit '' p'' @ RAW_TRANSCRIPT_START @ lit ''q '') =
             lit ''p'' @ RAW_TRANSCRIPT_START @ lit ''q''"
    by (simp add: strip_def lstrip_def rstrip_def isspace_def RAW_TRANSCRIPT_START_codes lit_def)
  have b: "strip (lit '' p'' @ ACCESSIBLE_NOTES_START @ lit ''q '') =
             lit ''p'' @ ACCESSIBLE_NOTES_START @ lit ''q''"
    by (simp add: strip_def lstrip_def rstrip_def isspace_def ACCESSIBLE_NOTES_START_codes lit_def)
  have c: "strip (lit '' only '') = lit ''only''"
    by (simp add: strip_def lstrip_def rstrip_def isspace_def lit_def)
  note r1 = inst [THEN conjunct1, THEN mp, OF conjI [OF 1 5]]
  note r2 = inst [THEN conjunct2, THEN conjunct1, THEN mp, OF conjI [OF 1 2]]
  note r3 = inst [THEN conjunct2, THEN conjunct2, THEN conjunct1, THEN mp, OF conjI [OF 3 6]]
  note r4 = inst [THEN conjunct2, THEN conjunct2, THEN conjunct2, THEN mp, OF conjI [OF 3 4]]
  show ?thesis using r1 r2 r3 r4 unfolding a b c by (intro conjI)
qed

text \<open>
  C5. For the empty response text the raw transcript is empty and the accessible transcript is
  the fallback notice of the source, \<open>Accessible notes could not be parsed from the model
  response.\<close> and two newlines, followed by nothing; a response without text, \<open>None\<close>,
  gives the same.
\<close>

theorem extract_empty:
  "extract_text (Some []) =
     Inr \<lparr>raw_transcript = [],
          accessible_transcript =
            lit ''Accessible notes could not be parsed from the model response.'' @
            [10, 10]\<rparr> \<and>
   extract_text None =
     Inr \<lparr>raw_transcript = [],
          accessible_transcript =
            lit ''Accessible notes could not be parsed from the model response.'' @
            [10, 10]\<rparr>"
proof -
  have "full_text_of (Some []) = []" "full_text_of None = []"
    by (simp_all add: full_text_of_def strip_def lstrip_def rstrip_def)
  moreover have "section_body RAW_TRANSCRIPT_START RAW_TRANSCRIPT_END [] = None"
    by (simp add: section_body_def RAW_TRANSCRIPT_START_codes)
  moreover have "section_body ACCESSIBLE_NOTES_START ACCESSIBLE_NOTES_END [] = None"
    by (simp add: section_body_def ACCESSIBLE_NOTES_START_codes)
  ultimately show ?thesis unfolding extract_text_eq fallback_notice_def by simp
qed

text \<open>
  C6. The extraction never raises: for every response text, present or \<open>None\<close>, it returns a
  record whose two fields are strings.
\<close>

theorem extract_never_fails:
  "\<exists>raw accessible.
     extract_text response_text =
       Inr \<lparr>raw_transcript = raw, accessible_transcript = accessible\<rparr>"
  unfolding extract_text_eq by blast

text \<open>
  C7. When the API key is missing, \<open>None\<close> or the empty string, \<open>analyze_audio_file\<close>
  raises \<open>RuntimeError\<close> with an empty trace: no client was created, nothing was uploaded
  and the model was not called.
\<close>

theorem missing_key_raises_first:
  assumes "api_key = None \<or> api_key = Some []"
  shows "analyze_audio_file g audio_path api_key = ([], Inl (RuntimeError no_key_message))"
  using assms by (auto simp: analyze_audio_file_def)

theorem missing_key_raises_first_witness:
  "analyze_audio_file
     \<lparr>new_client = \<lambda>key. Inr (), files_upload = \<lambda>client path. Inr (),
      models_generate_content = \<lambda>client file. Inr (Some (lit ''text''))\<rparr>
     (lit ''lecture.mp3'') (Some []) =
   ([], Inl (RuntimeError no_key_message))"
  by (rule missing_key_raises_first) simp

text \<open>
  C8. A text that contains none of the four markers takes the fallback path: the raw
  transcript is the trimmed text. Extracting again from that raw transcript gives the same
  record.
\<close>

theorem fallback_idempotent:
  assumes "\<not> sublist RAW_TRANSCRIPT_START t" and "\<not> sublist RAW_TRANSCRIPT_END t"
    and "\<not> sublist ACCESSIBLE_NOTES_START t" and "\<not> sublist ACCESSIBLE_NOTES_END t"
  shows "extract_text (Some t) =
           Inr \<lparr>raw_transcript = strip t,
                accessible_transcript = fallback_notice @ strip t\<rparr> \<and>
         extract_text (Some (strip t)) =
           Inr \<lparr>raw_transcript = strip t,
                accessible_transcript = fallback_notice @ strip t\<rparr>"
proof -
  have "\<nexists>u v w. t = u @ RAW_TRANSCRIPT_START @ v @ RAW_TRANSCRIPT_END @ w"
    using assms(1) by (auto simp: sublist_def)
  then have r: "section_body RAW_TRANSCRIPT_START RAW_TRANSCRIPT_END (strip t) = None"
    by (rule section_body_strip_None)
  have "\<nexists>u v w. t = u @ ACCESSIBLE_NOTES_START @ v @ ACCESSIBLE_NOTES_END @ w"
    using assms(3) by (auto simp: sublist_def)
  then have n: "section_body ACCESSIBLE_NOTES_START ACCESSIBLE_NOTES_END (strip t) = None"
    by (rule section_body_strip_None)
  show ?thesis unfolding extract_text_Some strip_idem r n by simp
qed

theorem fallback_idempotent_witness:
  "extract_text (Some (lit ''  plain words '')) =
     Inr \<lparr>raw_transcript = lit ''plain words'',
          accessible_transcript = fallback_notice @ lit ''plain words''\<rparr> \<and>
   extract_text (Some (lit ''plain words'')) =
     Inr \<lparr>raw_transcript = lit ''plain words'',
          accessible_transcript = fallback_notice @ lit ''plain words''\<rparr>"
proof -
  have 1: "\<not> sublist RAW_TRANSCRIPT_START (lit ''  plain words '')"
    by (simp add: RAW_TRANSCRIPT_START_codes lit_def sublist_code)
  have 2: "\<not> sublist RAW_TRANSCRIPT_END (lit ''  plain words '')"
    by (simp add: RAW_TRANSCRIPT_END_codes lit_def sublist_code)
  have 3: "\<not> sublist ACCESSIBLE_NOTES_START (lit ''  plain words '')"
    by (simp add: ACCESSIBLE_NOTES_START_codes lit_def sublist_code)
  have 4: "\<not> sublist ACCESSIBLE_NOTES_END (lit ''  plain words '')"
    by (simp add: ACCESSIBLE_NOTES_END_codes lit_def sublist_code)
  have s: "strip (lit ''  plain words '') = lit ''plain words''"
    by (simp add: strip_def lstrip_def rstrip_def isspace_def lit_def)
  show ?thesis using fallback_idempotent [OF 1 2 3 4] unfolding s .
qed

text \<open>
  C9. The two searches each run over the whole text, so the pairs are found in either order:
  when the accessible-notes pair comes first and the raw-transcript pair after it, both
  sections are still extracted.
\<close>

theorem extract_either_order:
  assumes "\<not> sublist ACCESSIBLE_NOTES_START pre"
    and "\<not> sublist ACCESSIBLE_NOTES_END b"
    and "\<not> sublist RAW_TRANSCRIPT_START
             (pre @ ACCESSIBLE_NOTES_START @ b @ ACCESSIBLE_NOTES_END @ mid)"
    and "\<not> sublist RAW_TRANSCRIPT_END a"
  shows "extract_text
           (Some (pre @ ACCESSIBLE_NOTES_START @ b @ ACCESSIBLE_NOTES_END @ mid @
                  RAW_TRANSCRIPT_START @ a @ RAW_TRANSCRIPT_END @ post)) =
         Inr \<lparr>raw_transcript = strip a, accessible_transcript = strip b\<rparr>"
proof -
  let ?t = "pre @ ACCESSIBLE_NOTES_START @ b @ ACCESSIBLE_NOTES_END @ mid @
            RAW_TRANSCRIPT_START @ a @ RAW_TRANSCRIPT_END @ post"
  have acc: "section_body ACCESSIBLE_NOTES_START ACCESSIBLE_NOTES_END (strip ?t) = Some b"
    using assms(1,2) by (rule notes_section)
  have "section_body RAW_TRANSCRIPT_START RAW_TRANSCRIPT_END
          (strip ((pre @ ACCESSIBLE_NOTES_START @ b @ ACCESSIBLE_NOTES_END @ mid) @
             RAW_TRANSCRIPT_START @ a @ RAW_TRANSCRIPT_END @ post)) = Some a"
    using assms(3,4) by (rule raw_section)
  then have raw: "section_body RAW_TRANSCRIPT_START RAW_TRANSCRIPT_END (strip ?t) = Some a"
    by (simp only: append_assoc)
  show ?thesis unfolding extract_text_Some raw acc by simp
qed

theorem extract_either_order_witness:
  "extract_text
     (Some ([] @ ACCESSIBLE_NOTES_START @ lit '' N '' @ ACCESSIBLE_NOTES_END @ [10] @
            RAW_TRANSCRIPT_START @ lit '' R '' @ RAW_TRANSCRIPT_END @ [])) =
   Inr \<lparr>raw_transcript = lit ''R'', accessible_transcript = lit ''N''\<rparr>"
proof -
  have 1: "\<not> sublist ACCESSIBLE_NOTES_START []"
    by (simp add: ACCESSIBLE_NOTES_START_codes)
  have 2: "\<not> sublist ACCESSIBLE_NOTES_END (lit '' N '')"
    by (simp add: ACCESSIBLE_NOTES_END_codes lit_def sublist_code)
  have 3: "\<not> sublist RAW_TRANSCRIPT_START
             ([] @ ACCESSIBLE_NOTES_START @ lit '' N '' @ ACCESSIBLE_NOTES_END @ [10])"
    by (simp add: RAW_TRANSCRIPT_START_codes ACCESSIBLE_NOTES_START_codes
        ACCESSIBLE_NOTES_END_codes lit_def sublist_code)
  have 4: "\<not> sublist RAW_TRANSCRIPT_END (lit '' R '')"
    by (simp add: RAW_TRANSCRIPT_END_codes lit_def sublist_code)
  have a: "strip (lit '' R '') = lit ''R''"
    by (simp add: strip_def lstrip_def rstrip_def isspace_def lit_def)
  have b: "strip (lit '' N '') = lit ''N''"
    by (simp add: strip_def lstrip_def rstrip_def isspace_def lit_def)
  show ?thesis using extract_either_order [OF 1 2 3 4, of "[]"] unfolding a b .
qed

text \<open>
  C10. Whenever the search for a pair matches, the field extracted from it does not contain
  that pair's end marker.
\<close>

theorem matched_field_excludes_end_marker:
  assumes "extract_text (Some t) = Inr r"
  shows "(re_search raw_re (strip t) \<noteq> None \<longrightarrow>
            \<not> sublist RAW_TRANSCRIPT_END (raw_transcript r)) \<and>
         (re_search notes_re (strip t) \<noteq> None \<longrightarrow>
            \<not> sublist ACCESSIBLE_NOTES_END (accessible_transcript r))"
proof (intro conjI impI)
  assume "re_search raw_re (strip t) \<noteq> None"
  then obtain a where a: "section_body RAW_TRANSCRIPT_START RAW_TRANSCRIPT_END (strip t) = Some a"
    unfolding raw_re_search by auto
  have "RAW_TRANSCRIPT_END \<noteq> []" using marker_RAW_TRANSCRIPT_END by (simp add: marker_def)
  with a have "\<not> sublist RAW_TRANSCRIPT_END a" by (rule section_body_no_stop)
  then have "\<not> sublist RAW_TRANSCRIPT_END (strip a)"
    using sublist_strip [of a] by (meson sublist_order.order_trans)
  moreover have "raw_transcript r = strip a"
    using assms unfolding extract_text_Some a by auto
  ultimately show "\<not> sublist RAW_TRANSCRIPT_END (raw_transcript r)" by simp
next
  assume "re_search notes_re (strip t) \<noteq> None"
  then obtain b where
    b: "section_body ACCESSIBLE_NOTES_START ACCESSIBLE_NOTES_END (strip t) = Some b"
    unfolding notes_re_search by auto
  have "ACCESSIBLE_NOTES_END \<noteq> []"
    using marker_ACCESSIBLE_NOTES_END by (simp add: marker_def)
  with b have "\<not> sublist ACCESSIBLE_NOTES_END b" by (rule section_body_no_stop)
  then have "\<not> sublist ACCESSIBLE_NOTES_END (strip b)"
    using sublist_strip [of b] by (meson sublist_order.order_trans)
  moreover have "accessible_transcript r = strip b"
    using assms unfolding extract_text_Some b by auto
  ultimately show "\<not> sublist ACCESSIBLE_NOTES_END (accessible_transcript r)" by simp
qed

theorem matched_field_excludes_end_marker_witness:
  "extract_text
     (Some (RAW_TRANSCRIPT_START @ lit ''a'' @ RAW_TRANSCRIPT_END @
            ACCESSIBLE_NOTES_START @ lit ''b'' @ ACCESSIBLE_NOTES_END)) =
     Inr \<lparr>raw_transcript = lit ''a'', accessible_transcript = lit ''b''\<rparr> \<and>
   re_search raw_re
     (strip (RAW_TRANSCRIPT_START @ lit ''a'' @ RAW_TRANSCRIPT_END @
             ACCESSIBLE_NOTES_START @ lit ''b'' @ ACCESSIBLE_NOTES_END)) \<noteq> None \<and>
   re_search notes_re
     (strip (RAW_TRANSCRIPT_START @ lit ''a'' @ RAW_TRANSCRIPT_END @
             ACCESSIBLE_NOTES_START @ lit ''b'' @ ACCESSIBLE_NOTES_END)) \<noteq> None \<and>
   \<not> sublist RAW_TRANSCRIPT_END
       (raw_transcript \<lparr>raw_transcript = lit ''a'', accessible_transcript = lit ''b''\<rparr>) \<and>
   \<not> sublist ACCESSIBLE_NOTES_END
       (accessible_transcript \<lparr>raw_transcript = lit ''a'', accessible_transcript = lit ''b''\<rparr>)"
proof -
  let ?t = "RAW_TRANSCRIPT_START @ lit ''a'' @ RAW_TRANSCRIPT_END @
            ACCESSIBLE_NOTES_START @ lit ''b'' @ ACCESSIBLE_NOTES_END"
  have s: "strip ?t = ?t"
    by (simp add: strip_def lstrip_def rstrip_def isspace_def RAW_TRANSCRIPT_START_codes
        RAW_TRANSCRIPT_END_codes ACCESSIBLE_NOTES_START_codes ACCESSIBLE_NOTES_END_codes lit_def)
  have r: "section_body RAW_TRANSCRIPT_START RAW_TRANSCRIPT_END ?t = Some (lit ''a'')"
    by (simp add: section_body_def RAW_TRANSCRIPT_START_codes RAW_TRANSCRIPT_END_codes
        ACCESSIBLE_NOTES_START_codes ACCESSIBLE_NOTES_END_codes lit_def)
  have n: "section_body ACCESSIBLE_NOTES_START ACCESSIBLE_NOTES_END ?t = Some (lit ''b'')"
    by (simp add: section_body_def RAW_TRANSCRIPT_START_codes RAW_TRANSCRIPT_END_codes
        ACCESSIBLE_NOTES_START_codes ACCESSIBLE_NOTES_END_codes lit_def)
  have a: "strip (lit ''a'') = lit ''a''" "strip (lit ''b'') = lit ''b''"
    by (simp_all add: strip_def lstrip_def rstrip_def isspace_def lit_def)
  have e: "extract_text (Some ?t) =
             Inr \<lparr>raw_transcript = lit ''a'', accessible_transcript = lit ''b''\<rparr>"
    by (simp only: extract_text_Some s r n a option.case)
  have m1: "re_search raw_re (strip ?t) \<noteq> None"
    unfolding raw_re_search s r by simp
  have m2: "re_search notes_re (strip ?t) \<noteq> None"
    unfolding notes_re_search s n by simp
  note c = matched_field_excludes_end_marker [OF e]
  show ?thesis
    using e m1 m2 c [THEN conjunct1, THEN mp, OF m1] c [THEN conjunct2, THEN mp, OF m2]
    by (intro conjI)
qed

end
